theory Spec2Isabelle
  imports Main "HOL-Library.Char_ord" "HOL-Library.List_Lexorder"
begin

section \<open>Python strings\<close>

text \<open>
  The program is Python 2 (it calls \<open>dict.iteritems\<close>): a \<open>str\<close> is a byte string,
  modelled as \<open>string\<close>. Characters that cannot be written inside a literal get a name.
\<close>

abbreviation nl :: char where "nl \<equiv> CHR 0x0A"
abbreviation bsl :: char where "bsl \<equiv> CHR 0x5C"

text \<open>\<open>string.whitespace\<close>: space, tab, line feed, vertical tab, form feed, carriage return.\<close>

definition isspace :: "char \<Rightarrow> bool" where
  "isspace c \<longleftrightarrow> c = CHR '' '' \<or> c = CHR 0x09 \<or> c = nl \<or> c = CHR 0x0B \<or> c = CHR 0x0C \<or> c = CHR 0x0D"

text \<open>\<open>s.strip()\<close>\<close>

definition strip :: "string \<Rightarrow> string" where
  "strip s = rev (dropWhile isspace (rev (dropWhile isspace s)))"

text \<open>\<open>s.split(sep)\<close> for a one-character separator: never the empty list.\<close>

fun split_chr :: "char \<Rightarrow> string \<Rightarrow> string list" where
  "split_chr sep [] = [[]]"
| "split_chr sep (c # cs) =
     (if c = sep then [] # split_chr sep cs
      else (case split_chr sep cs of [] \<Rightarrow> [[c]] | p # ps \<Rightarrow> (c # p) # ps))"

text \<open>
  The lines a file object yields, by \<open>readline\<close> or by iteration: each keeps its line feed,
  the last one has none when the file does not end with one.
\<close>

fun file_lines :: "string \<Rightarrow> string list" where
  "file_lines [] = []"
| "file_lines (c # cs) =
     (if c = nl then [nl] # file_lines cs
      else (case file_lines cs of [] \<Rightarrow> [[c]] | l # ls \<Rightarrow> (c # l) # ls))"

datatype py_error = IndexError | KeyError

section \<open>The bibliography splitter\<close>

text \<open>\<open>line.strip() != "" and line.strip()[0] == c\<close>\<close>

definition starts_with :: "char \<Rightarrow> string \<Rightarrow> bool" where
  "starts_with c line = (case strip line of [] \<Rightarrow> False | x # _ \<Rightarrow> x = c)"

text \<open>
  \<open>line.split('{')[1].split(',')[0].strip()\<close>; the index \<open>[1]\<close> raises when the line has
  no opening brace.
\<close>

definition entry_key :: "string \<Rightarrow> py_error + string" where
  "entry_key line =
     (case split_chr CHR ''{'' line of
        _ # p # _ \<Rightarrow> (case split_chr CHR '','' p of [] \<Rightarrow> Inl IndexError | q # _ \<Rightarrow> Inr (strip q))
      | _ \<Rightarrow> Inl IndexError)"

text \<open>
  The inner \<open>while\<close> of \<open>bib_strip\<close>. The argument is what is left of the file, the current
  line first; the empty list is \<open>readline\<close> returning \<open>""\<close> at the end of the file. The
  result is the rest of the file, from the line that stopped the loop, and \<open>child_bib\<close>.
\<close>

fun block_body :: "string list \<Rightarrow> string \<Rightarrow> string list \<times> string" where
  "block_body [] child_bib = ([], child_bib)"
| "block_body (line # f) child_bib =
     (if strip line \<noteq> [] \<and> \<not> starts_with CHR ''@'' line
      then block_body f (if \<not> starts_with CHR ''#'' line then child_bib @ line else child_bib)
      else (line # f, child_bib))"

lemma block_body_length: "length (fst (block_body f c)) \<le> length f"
  by (induction f arbitrary: c) (auto intro: le_SucI)

text \<open>
  The outer \<open>while\<close>: \<open>entries\<close> is the set the caller passed, consumed as keys are found.
\<close>

function strip_loop ::
  "string list \<Rightarrow> string set \<Rightarrow> string set \<Rightarrow> string
    \<Rightarrow> py_error + (string \<times> string set \<times> string set)" where
  "strip_loop [] entries added_entries child_bib = Inr (child_bib, added_entries, entries)"
| "strip_loop (line # f) entries added_entries child_bib =
     (if starts_with CHR ''@'' line then
        (case entry_key line of
           Inl e \<Rightarrow> Inl e
         | Inr entry \<Rightarrow>
             if entry \<in> entries then
               (case block_body f (child_bib @ line) of
                  (f', child_bib') \<Rightarrow>
                    strip_loop f' (entries - {entry}) (insert entry added_entries)
                      (child_bib' @ [nl]))
             else strip_loop f entries added_entries child_bib)
      else strip_loop f entries added_entries child_bib)"
  by pat_completeness auto
termination
proof (relation "measure (\<lambda>(f, _, _, _). length f)")
  fix line child_bib x2 ya :: string and f xa :: "string list"
    and entries added_entries :: "string set"
  assume "(xa, ya) = block_body f (child_bib @ line)"
  then have "xa = fst (block_body f (child_bib @ line))"
    by (metis fst_conv)
  then have "length xa \<le> length f"
    by (simp add: block_body_length)
  then show "((xa, entries - {x2}, insert x2 added_entries, ya @ [nl]),
              line # f, entries, added_entries, child_bib)
             \<in> measure (\<lambda>(f, _, _, _). length f)"
    by simp
qed auto

definition bib_strip ::
  "string \<Rightarrow> string set \<Rightarrow> py_error + (string \<times> string set \<times> string set)" where
  "bib_strip parent_bib entries = strip_loop (file_lines parent_bib) entries {} []"

text \<open>
  The condition of the inner \<open>while\<close>: the line is not blank and does not start an entry.
\<close>

definition continues_block :: "string \<Rightarrow> bool" where
  "continues_block line \<longleftrightarrow> strip line \<noteq> [] \<and> \<not> starts_with CHR ''@'' line"

text \<open>
  The block as the specification words it, for comparison with the code: the header line,
  then every following line up to the next line beginning with \<open>@\<close> or the end of the file,
  lines beginning with \<open>#\<close> left out, then one line feed.
\<close>

definition spec_block :: "string \<Rightarrow> string list \<Rightarrow> string" where
  "spec_block line f =
     line @ concat (filter (\<lambda>l. \<not> starts_with CHR ''#'' l)
                      (takeWhile (\<lambda>l. \<not> starts_with CHR ''@'' l) f)) @ [nl]"

text \<open>
  The key as the specification words it: the text between the first \<open>{\<close> and the
  following comma, trimmed.
\<close>

definition spec_entry_key :: "string \<Rightarrow> string" where
  "spec_entry_key line =
     strip (takeWhile (\<lambda>c. c \<noteq> CHR '','') (tl (dropWhile (\<lambda>c. c \<noteq> CHR ''{'') line)))"

text \<open>A line that begins with \<open>@\<close> and whose parsed key is \<open>k\<close>.\<close>

definition is_header_for :: "string \<Rightarrow> string \<Rightarrow> bool" where
  "is_header_for k line \<longleftrightarrow> starts_with CHR ''@'' line \<and> entry_key line = Inr k"

text \<open>
  What the lines of a file look like: every line but the last ends with its only line feed,
  the last one may have none.
\<close>

definition complete :: "string \<Rightarrow> bool" where
  "complete l \<longleftrightarrow> l \<noteq> [] \<and> last l = nl \<and> nl \<notin> set (butlast l)"

fun lines_ok :: "string list \<Rightarrow> bool" where
  "lines_ok [] = True"
| "lines_ok [l] = (complete l \<or> (l \<noteq> [] \<and> nl \<notin> set l))"
| "lines_ok (l # m # f) = (complete l \<and> lines_ok (m # f))"

section \<open>Bibliography lookups\<close>

text \<open>\<open>sanitize\<close>: the three \<open>replace\<close> calls, in the source's order.\<close>

definition sanitize :: "string \<Rightarrow> string" where
  "sanitize s = filter (\<lambda>c. c \<noteq> CHR 0x0D) (filter (\<lambda>c. c \<noteq> CHR 0x09) (filter (\<lambda>c. c \<noteq> nl) s))"

text \<open>
  \<open>bibtexparser\<close> is a library outside the repository: the functions below take
  \<open>load\<close>, what \<open>bibtexparser.load\<close> returns for the text of a file (\<open>None\<close> being
  Python's \<open>None\<close>), and \<open>bib\<close>, the text of the file. An entry is a dictionary from
  field names to values; \<open>entries_dict\<close> maps each key to its entry.
\<close>

type_synonym entry = "string \<rightharpoonup> string"

record bib_database =
  entries :: "entry list"
  entries_dict :: "string \<rightharpoonup> entry"

definition bib_lookup ::
  "(string \<Rightarrow> bib_database option) \<Rightarrow> string \<Rightarrow> string \<Rightarrow> string \<Rightarrow> string option" where
  "bib_lookup load bib bibnick what =
     (case load bib of
        None \<Rightarrow> None
      | Some bib_database \<Rightarrow>
          (case entries_dict bib_database bibnick of
             None \<Rightarrow> None
           | Some entry \<Rightarrow>
               (case entry what of None \<Rightarrow> None | Some v \<Rightarrow> Some (sanitize v))))"

text \<open>
  \<open>bib_lookup_many\<close>: the first \<open>for\<close> copies the fields the entry has, the second
  gives every requested field not yet in \<open>result\<close> the empty string.
\<close>

fun present_fields :: "entry \<Rightarrow> string list \<Rightarrow> (string \<rightharpoonup> string) \<Rightarrow> (string \<rightharpoonup> string)" where
  "present_fields entry [] result = result"
| "present_fields entry (w # what) result =
     present_fields entry what
       (case entry w of None \<Rightarrow> result | Some v \<Rightarrow> result(w \<mapsto> sanitize v))"

fun absent_fields :: "string list \<Rightarrow> (string \<rightharpoonup> string) \<Rightarrow> (string \<rightharpoonup> string)" where
  "absent_fields [] result = result"
| "absent_fields (w # what) result =
     absent_fields what (if result w = None then result(w \<mapsto> []) else result)"

definition bib_lookup_many ::
  "(string \<Rightarrow> bib_database option) \<Rightarrow> string \<Rightarrow> string \<Rightarrow> string list
    \<Rightarrow> (string \<rightharpoonup> string)" where
  "bib_lookup_many load bib bibnick what =
     absent_fields what
       (case load bib of
          None \<Rightarrow> Map.empty
        | Some bib_database \<Rightarrow>
            (case entries_dict bib_database bibnick of
               None \<Rightarrow> Map.empty
             | Some entry \<Rightarrow> present_fields entry what Map.empty))"

text \<open>A sample parse result: one entry, \<open>k\<close>, with a title and no year.\<close>

definition example_load :: "string \<Rightarrow> bib_database option" where
  "example_load bib = Some \<lparr>entries = [[''ID'' \<mapsto> ''k'', ''title'' \<mapsto> ''T'']],
     entries_dict = [''k'' \<mapsto> [''ID'' \<mapsto> ''k'', ''title'' \<mapsto> ''T'']]\<rparr>"

section \<open>Reporting\<close>

text \<open>The decimal digits of a natural number, as \<open>format\<close> renders an \<open>int\<close>.\<close>

definition digit_chr :: "nat \<Rightarrow> char" where
  "digit_chr d = ''0123456789'' ! d"

fun str_nat :: "nat \<Rightarrow> string" where
  "str_nat n = (if n < 10 then [digit_chr n] else str_nat (n div 10) @ [digit_chr (n mod 10)])"

declare str_nat.simps [simp del]

text \<open>
  \<open>_printer\<close> (the name cannot start with an underscore here). \<open>things\<close> is a set of
  strings; \<open>sorted\<close> orders them as Python 2 orders byte strings, which is the order of
  \<open>string\<close> here. \<open>printer_items\<close> is the \<open>for\<close> loop, \<open>i\<close> the index \<open>enumerate\<close>
  supplies.
\<close>

fun printer_items :: "nat \<Rightarrow> string list \<Rightarrow> string \<Rightarrow> string" where
  "printer_items i [] out = out"
| "printer_items i (thing # rest) out =
     printer_items (i + 1) rest (out @ str_nat (i + 1) @ ''. '' @ thing @ [nl])"

definition printer :: "string set \<Rightarrow> string \<Rightarrow> string" where
  "printer things msg =
     (if card things > 0
      then printer_items 0 (sorted_list_of_set things)
             (msg @ [nl] @ replicate (length msg) CHR ''='' @ [nl])
      else [])"

section \<open>Files and keys\<close>

text \<open>
  \<open>re.search("\[(.+)\]", filename)\<close>. \<open>bracket_group s\<close> matches \<open>(.+)\]\<close> at the
  head of \<open>s\<close>: the dot takes no line feed and \<open>.+\<close> is greedy, so the group runs to the
  last \<open>]\<close> before the first line feed, and holds at least one character.
  \<open>re_search_bracket\<close> tries every \<open>[\<close> from the left.
\<close>

definition bracket_group :: "string \<Rightarrow> string option" where
  "bracket_group s =
     (case takeWhile (\<lambda>c. c \<noteq> nl) s of
        [] \<Rightarrow> None
      | c # t \<Rightarrow>
          if CHR '']'' \<in> set t
          then Some (c # rev (tl (dropWhile (\<lambda>x. x \<noteq> CHR '']'') (rev t))))
          else None)"

fun re_search_bracket :: "string \<Rightarrow> string option" where
  "re_search_bracket [] = None"
| "re_search_bracket (c # cs) =
     (if c = CHR ''[''
      then (case bracket_group cs of Some g \<Rightarrow> Some g | None \<Rightarrow> re_search_bracket cs)
      else re_search_bracket cs)"

definition filename_to_bibnick :: "string \<Rightarrow> string" where
  "filename_to_bibnick filename =
     (case re_search_bracket filename of Some g \<Rightarrow> g | None \<Rightarrow> filename)"

text \<open>
  The contract as the specification words it, for comparison with the code: the result is
  the content of a bracketed substring when the name has one, the whole name otherwise.
  \<open>bracketed_contents\<close> lists the content of every substring that starts with \<open>[\<close> and
  ends with \<open>]\<close>.
\<close>

definition bracketed_contents :: "string \<Rightarrow> string list" where
  "bracketed_contents s =
     concat (map (\<lambda>i. concat (map (\<lambda>j.
        if s ! i = CHR ''['' \<and> s ! j = CHR '']'' then [take (j - i - 1) (drop (i + 1) s)] else [])
        [i + 1..<length s])) [0..<length s])"

definition spec_filename_to_bibnick :: "string \<Rightarrow> string \<Rightarrow> bool" where
  "spec_filename_to_bibnick filename r =
     (if bracketed_contents filename = [] then r = filename
      else r \<in> set (bracketed_contents filename))"

text \<open>\<open>s.startswith(p)\<close>, \<open>s.endswith(suffix)\<close> and \<open>sub in s\<close>.\<close>

fun startswith :: "string \<Rightarrow> string \<Rightarrow> bool" where
  "startswith s [] = True"
| "startswith [] (p # ps) = False"
| "startswith (c # cs) (p # ps) = (c = p \<and> startswith cs ps)"

definition endswith :: "string \<Rightarrow> string \<Rightarrow> bool" where
  "endswith s suffix = startswith (rev s) (rev suffix)"

fun contains :: "string \<Rightarrow> string \<Rightarrow> bool" where
  "contains [] sub = (sub = [])"
| "contains (c # cs) sub = (startswith (c # cs) sub \<or> contains cs sub)"

text \<open>\<open>os.path.join(a, b)\<close> on POSIX.\<close>

definition path_join :: "string \<Rightarrow> string \<Rightarrow> string" where
  "path_join a b =
     (if startswith b ''/'' then b
      else if a = [] \<or> endswith a ''/'' then a @ b
      else a @ ''/'' @ b)"

text \<open>
  What \<open>os.walk\<close> yields: for each directory its path, its subdirectories and its files.
  \<open>os.path.abspath\<close> depends on the working directory and is a parameter.
  \<open>find_in_filenames\<close> is the inner \<open>for\<close> of \<open>find_pdf_from_bibnick\<close>.
\<close>

type_synonym walk = "(string \<times> string list \<times> string list) list"

fun find_in_filenames ::
  "(string \<Rightarrow> string) \<Rightarrow> string \<Rightarrow> string \<Rightarrow> string list \<Rightarrow> string option" where
  "find_in_filenames abspath bibnick root [] = None"
| "find_in_filenames abspath bibnick root (filename # filenames) =
     (if contains filename bibnick \<and> endswith filename ''.pdf''
      then Some (abspath (path_join root filename))
      else find_in_filenames abspath bibnick root filenames)"

fun find_pdf_from_bibnick :: "(string \<Rightarrow> string) \<Rightarrow> string \<Rightarrow> walk \<Rightarrow> string option" where
  "find_pdf_from_bibnick abspath bibnick [] = None"
| "find_pdf_from_bibnick abspath bibnick ((root, dirnames, filenames) # w) =
     (case find_in_filenames abspath bibnick root filenames of
        Some p \<Rightarrow> Some p
      | None \<Rightarrow> find_pdf_from_bibnick abspath bibnick w)"

text \<open>Every file of the walk with its directory, in the order of the walk.\<close>

definition walk_files :: "walk \<Rightarrow> (string \<times> string) list" where
  "walk_files w = concat (map (\<lambda>(root, dirnames, filenames). map (Pair root) filenames) w)"

section \<open>The LaTeX citation scanner\<close>

text \<open>
  The pattern \<open>citere\<close> is \<open>(\\cite|\\fullcite)\{(.*?)\}\<close>. \<open>cite_arg\<close> matches
  \<open>\{(.*?)\}\<close> at the head of a string: the group is lazy and the dot takes no line feed,
  so it runs to the first \<open>}\<close>, and there is no match when a line feed comes first. The
  result is the group and the text after the match.
\<close>

definition cite_arg :: "string \<Rightarrow> (string \<times> string) option" where
  "cite_arg s =
     (case s of
        [] \<Rightarrow> None
      | c # t \<Rightarrow>
          if c = CHR ''{'' then
            (let a = takeWhile (\<lambda>x. x \<noteq> CHR ''}'') t
             in if length a < length t \<and> nl \<notin> set a then Some (a, drop (Suc (length a)) t)
                else None)
          else None)"

text \<open>A match of \<open>citere\<close> at the head of a string: the two groups and the text after.\<close>

definition citere_match :: "string \<Rightarrow> (string \<times> string \<times> string) option" where
  "citere_match s =
     (case (if startswith s (bsl # ''cite'') then cite_arg (drop 5 s) else None) of
        Some (a, rest) \<Rightarrow> Some (bsl # ''cite'', a, rest)
      | None \<Rightarrow>
          (case (if startswith s (bsl # ''fullcite'') then cite_arg (drop 9 s) else None) of
             Some (a, rest) \<Rightarrow> Some (bsl # ''fullcite'', a, rest)
           | None \<Rightarrow> None))"

lemma cite_arg_length: "cite_arg s = Some (a, rest) \<Longrightarrow> length rest < length s"
  by (auto simp: cite_arg_def Let_def split: list.splits if_splits)

lemma citere_match_length: "citere_match s = Some (g, a, rest) \<Longrightarrow> length rest < length s"
  by (auto simp: citere_match_def split: option.splits if_splits dest!: cite_arg_length)

text \<open>
  \<open>re.findall(citere, lines)\<close>: the matches from left to right, none overlapping, each a
  pair of the two groups.
\<close>

function findall_citere :: "string \<Rightarrow> (string \<times> string) list" where
  "findall_citere [] = []"
| "findall_citere (c # cs) =
     (case citere_match (c # cs) of
        Some (g, a, rest) \<Rightarrow> (g, a) # findall_citere rest
      | None \<Rightarrow> findall_citere cs)"
  by pat_completeness auto
termination
  by (relation "measure length") (auto dest: citere_match_length)

text \<open>
  The loop over the matches of one file. \<open>warned\<close> counts the calls of
  \<open>warnings.warn\<close>, which returns normally.
\<close>

fun add_cites :: "(string \<times> string) list \<Rightarrow> string set \<Rightarrow> nat \<Rightarrow> string set \<times> nat" where
  "add_cites [] cites warned = (cites, warned)"
| "add_cites (x # xs) cites warned =
     (if snd x \<noteq> []
      then add_cites xs (cites \<union> set (map strip (split_chr CHR '','' (snd x)))) warned
      else add_cites xs cites (Suc warned))"

text \<open>\<open>"".join(line.strip() for line in f)\<close>\<close>

definition joined_lines :: "string \<Rightarrow> string" where
  "joined_lines text = concat (map strip (file_lines text))"

text \<open>
  The set \<open>tex_files\<close>, in the order of the walk: the files named \<open>*.tex\<close> whose name
  does not begin with a dot. \<open>read\<close> gives the text of a file.
\<close>

definition tex_files :: "walk \<Rightarrow> string list" where
  "tex_files w =
     remdups (concat (map (\<lambda>(root, dirnames, filenames).
        map (path_join root)
          (filter (\<lambda>filename. case filename of [] \<Rightarrow> False | c # _ \<Rightarrow> c \<noteq> CHR ''.'')
             (filter (\<lambda>filename. endswith filename ''.tex'') filenames))) w))"

fun scan_files :: "(string \<Rightarrow> string) \<Rightarrow> string list \<Rightarrow> string set \<Rightarrow> nat \<Rightarrow> string set \<times> nat" where
  "scan_files read [] cites warned = (cites, warned)"
| "scan_files read (tex_file # fs) cites warned =
     (case add_cites (findall_citere (joined_lines (read tex_file))) cites warned of
        (cites', warned') \<Rightarrow> scan_files read fs cites' warned')"

definition latex_cites :: "(string \<Rightarrow> string) \<Rightarrow> walk \<Rightarrow> string set \<times> nat" where
  "latex_cites read project = scan_files read (tex_files project) {} 0"

text \<open>Every match of every scanned file, and the keys one match contributes.\<close>

definition all_matches :: "(string \<Rightarrow> string) \<Rightarrow> walk \<Rightarrow> (string \<times> string) list" where
  "all_matches read project =
     concat (map (\<lambda>tex_file. findall_citere (joined_lines (read tex_file))) (tex_files project))"

definition keys_of :: "string \<times> string \<Rightarrow> string set" where
  "keys_of x = set (map strip (split_chr CHR '','' (snd x)))"

section \<open>The make operation\<close>












section \<open>Properties of the splitter\<close>

lemma strip_loop_partition:
  "strip_loop f E A c = Inr (child, added, missing) \<Longrightarrow> A \<inter> E = {}
   \<Longrightarrow> added \<union> missing = A \<union> E \<and> added \<inter> missing = {}"
proof (induction f E A c rule: strip_loop.induct)
  case (1 entries added_entries child_bib)
  then show ?case by auto
next
  case (2 line f entries added_entries child_bib)
  show ?case
  proof (cases "starts_with CHR ''@'' line")
    case False
    with 2 show ?thesis by simp
  next
    case True
    then obtain k where k: "entry_key line = Inr k"
      using "2.prems"(1) by (cases "entry_key line") auto
    show ?thesis
    proof (cases "k \<in> entries")
      case False
      with 2 True k show ?thesis by simp
    next
      case kin: True
      obtain f' c' where b: "block_body f (child_bib @ line) = (f', c')"
        by (cases "block_body f (child_bib @ line)")
      have run: "strip_loop f' (entries - {k}) (insert k added_entries) (c' @ [nl])
                 = Inr (child, added, missing)"
        using "2.prems"(1) True k kin b by simp
      have disj: "insert k added_entries \<inter> (entries - {k}) = {}"
        using "2.prems"(2) by auto
      have "added \<union> missing = insert k added_entries \<union> (entries - {k})
            \<and> added \<inter> missing = {}"
        using "2.IH"(1)[OF True k kin b[symmetric] run disj] .
      with kin show ?thesis by auto
    qed
  qed
qed

text \<open>
  C2. Whenever \<open>bib_strip\<close> returns, the added keys and the missing keys partition the
  required set it was called with: their union is that set and they are disjoint.
\<close>

theorem bib_strip_partition:
  "bib_strip parent_bib R = Inr (child_bib, added, missing)
   \<Longrightarrow> added \<union> missing = R \<and> added \<inter> missing = {}"
  unfolding bib_strip_def using strip_loop_partition[of _ R "{}"] by fastforce

theorem bib_strip_partition_witness:
  "bib_strip (''@article{k1, x'' @ [nl] @ '' y=1'' @ [nl] @ ''}'') {''k1'', ''k2''}
     = Inr (''@article{k1, x'' @ [nl] @ '' y=1'' @ [nl] @ ''}'' @ [nl], {''k1''}, {''k2''})
   \<and> {''k1''} \<union> {''k2''} = {''k1'', ''k2''} \<and> {''k1''} \<inter> {''k2''} = {}"
proof -
  have run: "bib_strip (''@article{k1, x'' @ [nl] @ '' y=1'' @ [nl] @ ''}'') {''k1'', ''k2''}
     = Inr (''@article{k1, x'' @ [nl] @ '' y=1'' @ [nl] @ ''}'' @ [nl], {''k1''}, {''k2''})"
    by (simp add: bib_strip_def starts_with_def strip_def isspace_def entry_key_def)
  from bib_strip_partition[OF run] run show ?thesis by simp
qed

lemma block_body_eq:
  "block_body f c =
     (dropWhile continues_block f,
      c @ concat (filter (\<lambda>l. \<not> starts_with CHR ''#'' l) (takeWhile continues_block f)))"
  by (induction f arbitrary: c) (simp_all add: continues_block_def)

lemma strip_loop_header:
  "starts_with CHR ''@'' line \<Longrightarrow> entry_key line = Inr k \<Longrightarrow> k \<in> E \<Longrightarrow>
   strip_loop (line # f) E A c =
     strip_loop (dropWhile continues_block f) (E - {k}) (insert k A)
       (c @ line @ concat (filter (\<lambda>l. \<not> starts_with CHR ''#'' l) (takeWhile continues_block f))
          @ [nl])"
  by (simp add: block_body_eq)

lemma strip_loop_acc:
  "strip_loop f E A c =
     (case strip_loop f E A [] of Inl e \<Rightarrow> Inl e | Inr (t, a, m) \<Rightarrow> Inr (c @ t, a, m))"
proof (induction f arbitrary: E A c rule: length_induct)
  case (1 f)
  show ?case
  proof (cases f)
    case Nil
    then show ?thesis by simp
  next
    case (Cons line g)
    have skip: "strip_loop g E A c =
      (case strip_loop g E A [] of Inl e \<Rightarrow> Inl e | Inr (t, a, m) \<Rightarrow> Inr (c @ t, a, m))"
      using 1 Cons by simp
    show ?thesis
    proof (cases "starts_with CHR ''@'' line")
      case False
      with Cons skip show ?thesis by simp
    next
      case True
      show ?thesis
      proof (cases "entry_key line")
        case (Inl e)
        with Cons True show ?thesis by simp
      next
        case (Inr k)
        show ?thesis
        proof (cases "k \<in> E")
          case False
          with Cons True Inr skip show ?thesis by simp
        next
          case kin: True
          let ?g = "dropWhile continues_block g"
          let ?b = "line @ concat (filter (\<lambda>l. \<not> starts_with CHR ''#'' l)
                      (takeWhile continues_block g)) @ [nl]"
          have len: "length ?g < length f"
            using Cons by (simp add: length_dropWhile_le less_Suc_eq_le)
          have a: "strip_loop ?g (E - {k}) (insert k A) (c @ ?b) =
            (case strip_loop ?g (E - {k}) (insert k A) [] of Inl e \<Rightarrow> Inl e
             | Inr (t, a, m) \<Rightarrow> Inr ((c @ ?b) @ t, a, m))"
            using 1 len by blast
          have b: "strip_loop ?g (E - {k}) (insert k A) ?b =
            (case strip_loop ?g (E - {k}) (insert k A) [] of Inl e \<Rightarrow> Inl e
             | Inr (t, a, m) \<Rightarrow> Inr (?b @ t, a, m))"
            using 1 len by blast
          have l: "strip_loop f E A c = strip_loop ?g (E - {k}) (insert k A) (c @ ?b)"
            using strip_loop_header[OF True Inr kin, of g A c] Cons by simp
          have r: "strip_loop f E A [] = strip_loop ?g (E - {k}) (insert k A) ?b"
            using strip_loop_header[OF True Inr kin, of g A "[]"] Cons by simp
          show ?thesis
            unfolding l r a b by (auto split: sum.splits)
        qed
      qed
    qed
  qed
qed

lemma strip_loop_mono:
  "strip_loop f E A c = Inr (child, added, missing) \<Longrightarrow> A \<subseteq> added \<and> missing \<subseteq> E"
proof (induction f E A c rule: strip_loop.induct)
  case (1 entries added_entries child_bib)
  then show ?case by auto
next
  case (2 line f entries added_entries child_bib)
  show ?case
  proof (cases "starts_with CHR ''@'' line")
    case False
    with 2 show ?thesis by simp
  next
    case True
    then obtain k where k: "entry_key line = Inr k"
      using "2.prems"(1) by (cases "entry_key line") auto
    show ?thesis
    proof (cases "k \<in> entries")
      case False
      with 2 True k show ?thesis by simp
    next
      case kin: True
      obtain f' c' where b: "block_body f (child_bib @ line) = (f', c')"
        by (cases "block_body f (child_bib @ line)")
      have run: "strip_loop f' (entries - {k}) (insert k added_entries) (c' @ [nl])
                 = Inr (child, added, missing)"
        using "2.prems"(1) True k kin b by simp
      have "insert k added_entries \<subseteq> added \<and> missing \<subseteq> entries - {k}"
        using "2.IH"(1)[OF True k kin b[symmetric] run] .
      then show ?thesis by auto
    qed
  qed
qed

lemma strip_loop_block:
  assumes "starts_with CHR ''@'' line" and "entry_key line = Inr k" and "k \<in> E"
    and "strip_loop (line # f) E A c = Inr (child, added, missing)"
  shows "k \<in> added \<and> k \<notin> missing \<and>
    (\<exists>t. child = c @ line
             @ concat (filter (\<lambda>l. \<not> starts_with CHR ''#'' l) (takeWhile continues_block f))
             @ [nl] @ t
        \<and> strip_loop (dropWhile continues_block f) (E - {k}) (insert k A) []
            = Inr (t, added, missing))"
proof -
  let ?g = "dropWhile continues_block f"
  let ?b = "c @ line @ concat (filter (\<lambda>l. \<not> starts_with CHR ''#'' l)
                      (takeWhile continues_block f)) @ [nl]"
  have run: "strip_loop ?g (E - {k}) (insert k A) ?b = Inr (child, added, missing)"
    using strip_loop_header[OF assms(1-3), of f A c] assms(4) by simp
  from strip_loop_mono[OF run] have "k \<in> added" "k \<notin> missing" by auto
  moreover from run strip_loop_acc[of ?g "E - {k}" "insert k A" ?b]
  obtain t where "strip_loop ?g (E - {k}) (insert k A) [] = Inr (t, added, missing)"
    "child = ?b @ t"
    by (auto split: sum.splits)
  ultimately show ?thesis by auto
qed

lemma split_chr_unfold:
  "split_chr sep s =
     takeWhile (\<lambda>c. c \<noteq> sep) s
       # (if sep \<in> set s then split_chr sep (tl (dropWhile (\<lambda>c. c \<noteq> sep) s)) else [])"
proof (induction s)
  case Nil
  then show ?case by simp
next
  case (Cons c s)
  show ?case
  proof (cases "c = sep")
    case True
    then show ?thesis by simp
  next
    case False
    with Cons show ?thesis by (cases "sep \<in> set s") auto
  qed
qed

lemma takeWhile_both:
  "takeWhile P (takeWhile Q s) = takeWhile (\<lambda>c. Q c \<and> P c) s"
  by (induction s) auto

lemma entry_key_eq:
  "entry_key line =
     (if CHR ''{'' \<in> set line
      then Inr (strip (takeWhile (\<lambda>c. c \<noteq> CHR ''{'' \<and> c \<noteq> CHR '','')
                         (tl (dropWhile (\<lambda>c. c \<noteq> CHR ''{'') line))))
      else Inl IndexError)"
proof (cases "CHR ''{'' \<in> set line")
  case False
  then have "split_chr CHR ''{'' line = [takeWhile (\<lambda>c. c \<noteq> CHR ''{'') line]"
    using split_chr_unfold[of "CHR ''{''" line] by simp
  with False show ?thesis by (simp add: entry_key_def)
next
  case True
  let ?r = "tl (dropWhile (\<lambda>c. c \<noteq> CHR ''{'') line)"
  let ?p = "takeWhile (\<lambda>c. c \<noteq> CHR ''{'') ?r"
  have "split_chr CHR ''{'' line = takeWhile (\<lambda>c. c \<noteq> CHR ''{'') line # split_chr CHR ''{'' ?r"
    using split_chr_unfold[of "CHR ''{''" line] True by simp
  moreover have "\<exists>ps. split_chr CHR ''{'' ?r = ?p # ps"
    using split_chr_unfold[of "CHR ''{''" ?r] by simp
  moreover have "\<exists>qs. split_chr CHR '','' ?p = takeWhile (\<lambda>c. c \<noteq> CHR '','') ?p # qs"
    using split_chr_unfold[of "CHR '',''" ?p] by simp
  ultimately have "entry_key line = Inr (strip (takeWhile (\<lambda>c. c \<noteq> CHR '','') ?p))"
    by (auto simp: entry_key_def)
  with True show ?thesis by (simp add: takeWhile_both)
qed

text \<open>
  C1 (as amended). When the loop is at a line that begins with \<open>@\<close> and whose key is in the
  required set, the key being the text after the first \<open>{\<close> up to the next \<open>,\<close> or \<open>{\<close>
  or the end of the line, trimmed, then the key leaves the required set and is recorded as
  added, and the text returned continues with that line, then the following lines verbatim
  up to the first line that is blank or begins with \<open>@\<close>, or the end of the file, lines
  beginning with \<open>#\<close> left out, then one line feed; the scan resumes at the line that
  ended the block.
\<close>

theorem bib_strip_block:
  assumes "starts_with CHR ''@'' line" and "entry_key line = Inr k" and "k \<in> E"
    and "strip_loop (line # f) E A c = Inr (child, added, missing)"
  shows "k = strip (takeWhile (\<lambda>c. c \<noteq> CHR ''{'' \<and> c \<noteq> CHR '','')
                     (tl (dropWhile (\<lambda>c. c \<noteq> CHR ''{'') line)))
    \<and> k \<in> added \<and> k \<notin> missing \<and>
    (\<exists>t. child = c @ line
             @ concat (filter (\<lambda>l. \<not> starts_with CHR ''#'' l) (takeWhile continues_block f))
             @ [nl] @ t
        \<and> strip_loop (dropWhile continues_block f) (E - {k}) (insert k A) []
            = Inr (t, added, missing))"
proof -
  have "k = strip (takeWhile (\<lambda>c. c \<noteq> CHR ''{'' \<and> c \<noteq> CHR '','')
                     (tl (dropWhile (\<lambda>c. c \<noteq> CHR ''{'') line)))"
    using assms(2) entry_key_eq[of line] by (simp split: if_splits)
  with strip_loop_block[OF assms] show ?thesis by simp
qed

theorem bib_strip_block_witness:
  "starts_with CHR ''@'' (''@a{k,'' @ [nl]) \<and> entry_key (''@a{k,'' @ [nl]) = Inr ''k''
   \<and> ''k'' \<in> {''k''}
   \<and> strip_loop ((''@a{k,'' @ [nl]) # [''  x=1,'' @ [nl], ''# note'' @ [nl], ''}'' @ [nl], [nl],
                      ''@b{j,'' @ [nl], ''}'']) {''k''} {} []
       = Inr (''@a{k,'' @ [nl] @ ''  x=1,'' @ [nl] @ ''}'' @ [nl] @ [nl], {''k''}, {})
   \<and> (\<exists>t. ''@a{k,'' @ [nl] @ ''  x=1,'' @ [nl] @ ''}'' @ [nl] @ [nl]
            = [] @ (''@a{k,'' @ [nl])
              @ concat (filter (\<lambda>l. \<not> starts_with CHR ''#'' l)
                  (takeWhile continues_block
                     [''  x=1,'' @ [nl], ''# note'' @ [nl], ''}'' @ [nl], [nl],
                      ''@b{j,'' @ [nl], ''}''])) @ [nl] @ t
          \<and> strip_loop (dropWhile continues_block
                     [''  x=1,'' @ [nl], ''# note'' @ [nl], ''}'' @ [nl], [nl],
                      ''@b{j,'' @ [nl], ''}'']) ({''k''} - {''k''}) (insert ''k'' {}) []
              = Inr (t, {''k''}, {}))"
proof -
  have h1: "starts_with CHR ''@'' (''@a{k,'' @ [nl])"
    by (simp add: starts_with_def strip_def isspace_def)
  have h2: "entry_key (''@a{k,'' @ [nl]) = Inr ''k''"
    by (simp add: entry_key_def strip_def isspace_def)
  have h3: "''k'' \<in> {''k''}" by simp
  have h4: "strip_loop ((''@a{k,'' @ [nl]) # [''  x=1,'' @ [nl], ''# note'' @ [nl], ''}'' @ [nl], [nl],
                      ''@b{j,'' @ [nl], ''}'']) {''k''} {} []
       = Inr (''@a{k,'' @ [nl] @ ''  x=1,'' @ [nl] @ ''}'' @ [nl] @ [nl], {''k''}, {})"
    by (simp add: starts_with_def strip_def isspace_def entry_key_def)
  from bib_strip_block[OF h1 h2 h3 h4] h1 h2 h4 show ?thesis by blast
qed

text \<open>
  C1 as stated fails: a blank line inside an entry ends the block, so the lines of the entry
  after it are not copied, although no line beginning with \<open>@\<close> and no end of file has
  been reached. And the key ends at a second \<open>{\<close> as well as at a comma.
\<close>

theorem bib_strip_block_counterexample:
  "file_lines (''@a{k,'' @ [nl] @ ''  x=1,'' @ [nl] @ [nl] @ ''  y=2}'' @ [nl])
     = (''@a{k,'' @ [nl]) # [''  x=1,'' @ [nl], [nl], ''  y=2}'' @ [nl]]
   \<and> bib_strip (''@a{k,'' @ [nl] @ ''  x=1,'' @ [nl] @ [nl] @ ''  y=2}'' @ [nl]) {''k''}
       = Inr (''@a{k,'' @ [nl] @ ''  x=1,'' @ [nl] @ [nl], {''k''}, {})
   \<and> spec_block (''@a{k,'' @ [nl]) [''  x=1,'' @ [nl], [nl], ''  y=2}'' @ [nl]]
       = ''@a{k,'' @ [nl] @ ''  x=1,'' @ [nl] @ [nl] @ ''  y=2}'' @ [nl] @ [nl]
   \<and> ''@a{k,'' @ [nl] @ ''  x=1,'' @ [nl] @ [nl]
       \<noteq> spec_block (''@a{k,'' @ [nl]) [''  x=1,'' @ [nl], [nl], ''  y=2}'' @ [nl]]
   \<and> entry_key (''@a{k{x},'' @ [nl]) = Inr ''k''
   \<and> spec_entry_key (''@a{k{x},'' @ [nl]) = ''k{x}''"
  by (simp add: bib_strip_def spec_block_def starts_with_def strip_def isspace_def entry_key_def
      spec_entry_key_def)

lemma file_lines_Nil_iff [simp]: "file_lines t = [] \<longleftrightarrow> t = []"
  by (cases t) (auto split: list.splits)

lemma file_lines_nlfree: "l \<noteq> [] \<Longrightarrow> nl \<notin> set l \<Longrightarrow> file_lines l = [l]"
proof (induction l)
  case Nil
  then show ?case by simp
next
  case (Cons a l)
  then show ?case by (cases "l = []") auto
qed

lemma file_lines_body: "nl \<notin> set b \<Longrightarrow> file_lines (b @ nl # r) = (b @ [nl]) # file_lines r"
  by (induction b) auto

lemma file_lines_complete: "complete l \<Longrightarrow> file_lines (l @ r) = l # file_lines r"
proof -
  assume c: "complete l"
  then have "l = butlast l @ [nl]" "nl \<notin> set (butlast l)"
    by (auto simp: complete_def) (metis append_butlast_last_id)
  then show ?thesis
    using file_lines_body[of "butlast l" r] by (metis append.assoc append_Cons append_Nil)
qed

lemma lines_ok_file_lines: "lines_ok (file_lines t)"
proof (induction t)
  case Nil
  then show ?case by simp
next
  case (Cons c t)
  show ?case
  proof (cases "c = nl")
    case True
    have "complete [nl]" by (simp add: complete_def)
    with Cons True show ?thesis by (cases "file_lines t") auto
  next
    case False
    show ?thesis
    proof (cases "file_lines t")
      case Nil
      with False show ?thesis by simp
    next
      case (Cons l ls)
      have "complete l \<Longrightarrow> complete (c # l)"
        using False by (auto simp: complete_def)
      with Cons False \<open>lines_ok (file_lines t)\<close> show ?thesis
        by (cases ls) auto
    qed
  qed
qed


lemma strip_snoc_nl: "strip (l @ [nl]) = strip l"
proof (cases "\<forall>c\<in>set l. isspace c")
  case True
  have sp: "isspace nl" by (simp add: isspace_def)
  have all: "\<And>xs. \<forall>c\<in>set xs. isspace c \<Longrightarrow> dropWhile isspace xs = []"
    by (rule dropWhile_eq_Nil_conv[THEN iffD2])
  from True have "dropWhile isspace l = []" by (rule all)
  moreover from True sp have "dropWhile isspace (l @ [nl]) = []" by (intro all) auto
  ultimately show ?thesis unfolding strip_def by (simp only:)
next
  case False
  then obtain x where "x \<in> set l" "\<not> isspace x" by auto
  then have "dropWhile isspace (l @ [nl]) = dropWhile isspace l @ [nl]"
    by (rule dropWhile_append1)
  then show ?thesis by (simp add: strip_def isspace_def)
qed

lemma starts_with_snoc_nl: "starts_with c (l @ [nl]) = starts_with c l"
  by (simp add: starts_with_def strip_snoc_nl)

lemma split_chr_not_Nil [simp]: "split_chr sep s \<noteq> []"
  by (induction s) (auto split: list.splits)

lemma split_chr_snoc:
  "c \<noteq> sep \<Longrightarrow>
   split_chr sep (s @ [c]) = butlast (split_chr sep s) @ [last (split_chr sep s) @ [c]]"
proof (induction s)
  case Nil
  then show ?case by simp
next
  case (Cons a s)
  obtain p ps where p: "split_chr sep s = p # ps"
    by (cases "split_chr sep s") auto
  obtain q qs where q: "split_chr sep (s @ [c]) = q # qs"
    by (cases "split_chr sep (s @ [c])") auto
  from Cons p q show ?case
    by (cases ps) (auto split: if_splits)
qed

lemma entry_key_snoc_nl: "entry_key (l @ [nl]) = entry_key l"
proof -
  have brace: "split_chr CHR ''{'' (l @ [nl])
      = butlast (split_chr CHR ''{'' l) @ [last (split_chr CHR ''{'' l) @ [nl]]"
    by (rule split_chr_snoc) simp
  have comma: "\<And>p. split_chr CHR '','' (p @ [nl])
      = butlast (split_chr CHR '','' p) @ [last (split_chr CHR '','' p) @ [nl]]"
    by (rule split_chr_snoc) simp
  obtain p0 ps where ps: "split_chr CHR ''{'' l = p0 # ps"
    by (cases "split_chr CHR ''{'' l") auto
  show ?thesis
  proof (cases ps)
    case Nil
    with ps brace show ?thesis by (simp add: entry_key_def)
  next
    case (Cons p1 rest)
    obtain q0 qs where qs: "split_chr CHR '','' p1 = q0 # qs"
      by (cases "split_chr CHR '','' p1") auto
    show ?thesis
    proof (cases rest)
      case Nil
      with ps Cons brace have b: "split_chr CHR ''{'' (l @ [nl]) = [p0, p1 @ [nl]]" by simp
      from comma[of p1] qs have "\<exists>q' qs'. split_chr CHR '','' (p1 @ [nl]) = q' # qs'
          \<and> strip q' = strip q0"
        by (cases qs) (auto simp: strip_snoc_nl)
      with b ps Cons Nil qs show ?thesis by (auto simp: entry_key_def)
    next
      case (Cons p2 rest')
      with ps \<open>ps = p1 # rest\<close> brace
      have "\<exists>r. split_chr CHR ''{'' (l @ [nl]) = p0 # p1 # r"
        by (cases rest') auto
      with ps \<open>ps = p1 # rest\<close> show ?thesis by (auto simp: entry_key_def)
    qed
  qed
qed

lemma is_header_for_snoc_nl: "is_header_for k (l @ [nl]) = is_header_for k l"
  by (simp add: is_header_for_def starts_with_snoc_nl entry_key_snoc_nl)

lemma not_header_nl: "\<not> is_header_for k [nl]"
  by (simp add: is_header_for_def starts_with_def strip_def isspace_def)

lemma count_block:
  "lines_ok ps \<Longrightarrow> ps \<noteq> [] \<Longrightarrow>
   length (filter (is_header_for k) (file_lines (concat ps @ [nl])))
     = length (filter (is_header_for k) ps)"
proof (induction ps rule: lines_ok.induct)
  case 1
  then show ?case by simp
next
  case (2 l)
  show ?case
  proof (cases "complete l")
    case True
    then have "file_lines (l @ [nl]) = [l, [nl]]"
      by (simp add: file_lines_complete)
    then show ?thesis by (simp add: not_header_nl)
  next
    case False
    with 2 have "l \<noteq> []" "nl \<notin> set l" by auto
    then have "file_lines (l @ [nl]) = [l @ [nl]]"
      using file_lines_body[of l "[]"] by simp
    then show ?thesis by (simp add: is_header_for_snoc_nl)
  qed
next
  case (3 l m f)
  then have c: "complete l" and ok: "lines_ok (m # f)" by auto
  have "file_lines (concat (l # m # f) @ [nl]) = l # file_lines (concat (m # f) @ [nl])"
    using file_lines_complete[OF c] by simp
  with 3 ok show ?case by simp
qed

lemma file_lines_append:
  "t = [] \<or> last t = nl \<Longrightarrow> file_lines (t @ r) = file_lines t @ file_lines r"
proof (induction t)
  case Nil
  then show ?case by simp
next
  case (Cons c t)
  show ?case
  proof (cases "c = nl")
    case True
    with Cons show ?thesis by (cases "t = []") auto
  next
    case False
    with Cons.prems have ne: "t \<noteq> []" and "last t = nl" by (auto split: if_splits)
    with Cons.IH have "file_lines (t @ r) = file_lines t @ file_lines r" by simp
    moreover from ne obtain l ls where "file_lines t = l # ls"
      by (cases "file_lines t") auto
    ultimately show ?thesis using False by simp
  qed
qed

lemma lines_ok_tl: "lines_ok (l # f) \<Longrightarrow> lines_ok f"
  by (cases f) auto

lemma lines_ok_Cons: "complete l \<Longrightarrow> lines_ok f \<Longrightarrow> lines_ok (l # f)"
  by (cases f) auto

lemma lines_ok_dropWhile: "lines_ok f \<Longrightarrow> lines_ok (dropWhile P f)"
  by (induction f) (auto dest: lines_ok_tl)

lemma lines_ok_filter: "lines_ok f \<Longrightarrow> lines_ok (filter P f)"
  by (induction f rule: lines_ok.induct) (auto intro: lines_ok_Cons)

lemma lines_ok_takeWhile: "lines_ok f \<Longrightarrow> lines_ok (takeWhile P f)"
  by (induction f rule: lines_ok.induct) (auto intro: lines_ok_Cons)

lemma lines_ok_block: "lines_ok (l # f) \<Longrightarrow> lines_ok (l # filter P (takeWhile Q f))"
proof (cases f)
  case Nil
  assume "lines_ok (l # f)"
  with Nil show ?thesis by simp
next
  case (Cons m g)
  assume "lines_ok (l # f)"
  with Cons have "complete l" "lines_ok f" by auto
  then show ?thesis
    by (intro lines_ok_Cons lines_ok_filter lines_ok_takeWhile)
qed

lemma body_no_header:
  "length (filter (is_header_for k) (filter P (takeWhile continues_block g))) = 0"
proof -
  have "\<forall>l\<in>set (takeWhile continues_block g). \<not> is_header_for k l"
    by (auto dest!: set_takeWhileD simp: continues_block_def is_header_for_def)
  then show ?thesis by (simp add: filter_empty_conv)
qed

lemma header_dropWhile:
  "(\<exists>l\<in>set (dropWhile continues_block g). is_header_for k l)
   \<longleftrightarrow> (\<exists>l\<in>set g. is_header_for k l)"
proof -
  have "\<forall>l\<in>set (takeWhile continues_block g). \<not> is_header_for k l"
    by (auto dest!: set_takeWhileD simp: continues_block_def is_header_for_def)
  moreover have "set g = set (takeWhile continues_block g) \<union> set (dropWhile continues_block g)"
    by (metis set_append takeWhile_dropWhile_id)
  ultimately show ?thesis by auto
qed

lemma strip_loop_count:
  "lines_ok f \<Longrightarrow> strip_loop f E A [] = Inr (t, a, m) \<Longrightarrow>
   (t = [] \<or> last t = nl) \<and>
   length (filter (is_header_for k) (file_lines t))
     = (if k \<in> E \<and> (\<exists>l\<in>set f. is_header_for k l) then 1 else 0)"
proof (induction f arbitrary: E A t a m rule: length_induct)
  case (1 f)
  show ?case
  proof (cases f)
    case Nil
    with 1 show ?thesis by simp
  next
    case (Cons line g)
    have okg: "lines_ok g" using "1.prems"(1) Cons by (auto dest: lines_ok_tl)
    show ?thesis
    proof (cases "\<exists>j. starts_with CHR ''@'' line \<and> entry_key line = Inr j \<and> j \<in> E")
      case False
      then have "strip_loop f E A [] = strip_loop g E A []"
        using Cons "1.prems"(2) by (cases "entry_key line") (auto split: if_splits)
      with "1.prems"(2) have run: "strip_loop g E A [] = Inr (t, a, m)" by simp
      have IH: "(t = [] \<or> last t = nl) \<and>
        length (filter (is_header_for k) (file_lines t))
          = (if k \<in> E \<and> (\<exists>l\<in>set g. is_header_for k l) then 1 else 0)"
      proof -
        have "length g < length f" using Cons by simp
        with "1.IH" okg run show ?thesis by blast
      qed
      have "k \<in> E \<Longrightarrow> \<not> is_header_for k line"
        using False by (auto simp: is_header_for_def)
      with IH Cons show ?thesis by auto
    next
      case True
      then obtain j where at: "starts_with CHR ''@'' line" and key: "entry_key line = Inr j"
        and jin: "j \<in> E" by blast
      let ?g = "dropWhile continues_block g"
      let ?ps = "line # filter (\<lambda>l. \<not> starts_with CHR ''#'' l) (takeWhile continues_block g)"
      let ?blk = "concat ?ps @ [nl]"
      have "strip_loop f E A [] = strip_loop ?g (E - {j}) (insert j A) ?blk"
        using strip_loop_header[OF at key jin, of g A "[]"] Cons by simp
      with "1.prems"(2) strip_loop_acc[of ?g "E - {j}" "insert j A" ?blk]
      obtain t' where run: "strip_loop ?g (E - {j}) (insert j A) [] = Inr (t', a, m)"
        and t: "t = ?blk @ t'"
        by (auto split: sum.splits)
      have "length ?g < length f"
        using Cons by (simp add: length_dropWhile_le less_Suc_eq_le)
      moreover have "lines_ok ?g" using okg by (rule lines_ok_dropWhile)
      ultimately have IH: "(t' = [] \<or> last t' = nl) \<and>
        length (filter (is_header_for k) (file_lines t'))
          = (if k \<in> E - {j} \<and> (\<exists>l\<in>set ?g. is_header_for k l) then 1 else 0)"
        using "1.IH" run by blast
      have lastt: "t = [] \<or> last t = nl" using IH t by auto
      have "file_lines t = file_lines ?blk @ file_lines t'"
        unfolding t by (rule file_lines_append) simp
      moreover have "lines_ok ?ps"
        using "1.prems"(1) Cons lines_ok_block by blast
      then have "length (filter (is_header_for k) (file_lines ?blk))
        = length (filter (is_header_for k) ?ps)"
        by (rule count_block) simp
      moreover have "length (filter (is_header_for k) ?ps) = (if j = k then 1 else 0)"
        using body_no_header[of k _ g] at key by (auto simp: is_header_for_def)
      ultimately have cnt: "length (filter (is_header_for k) (file_lines t))
        = (if j = k then 1 else 0)
          + (if k \<in> E - {j} \<and> (\<exists>l\<in>set ?g. is_header_for k l) then 1 else 0)"
        using IH by simp
      have hl: "is_header_for k line \<longleftrightarrow> j = k"
        using at key by (auto simp: is_header_for_def)
      show ?thesis
      proof (cases "j = k")
        case True
        with cnt hl jin Cons lastt show ?thesis by auto
      next
        case False
        with cnt hl Cons lastt header_dropWhile[of g k] show ?thesis by auto
      qed
    qed
  qed
qed

lemma strip_loop_keeps:
  "strip_loop f E A c = Inr (child, added, missing) \<Longrightarrow> k \<in> E
   \<Longrightarrow> \<forall>l\<in>set f. \<not> is_header_for k l \<Longrightarrow> k \<in> missing"
proof (induction f arbitrary: E A c rule: length_induct)
  case (1 f)
  show ?case
  proof (cases f)
    case Nil
    with 1 show ?thesis by simp
  next
    case (Cons line g)
    show ?thesis
    proof (cases "\<exists>j. starts_with CHR ''@'' line \<and> entry_key line = Inr j \<and> j \<in> E")
      case False
      then have "strip_loop f E A c = strip_loop g E A c"
        using Cons "1.prems"(1) by (cases "entry_key line") (auto split: if_splits)
      with "1.prems"(1) have "strip_loop g E A c = Inr (child, added, missing)" by simp
      moreover have "length g < length f" using Cons by simp
      moreover have "\<forall>l\<in>set g. \<not> is_header_for k l" using "1.prems"(3) Cons by simp
      ultimately show ?thesis using "1.IH" "1.prems"(2) by blast
    next
      case True
      then obtain j where at: "starts_with CHR ''@'' line" and key: "entry_key line = Inr j"
        and jin: "j \<in> E" by blast
      let ?g = "dropWhile continues_block g"
      have jk: "j \<noteq> k" using "1.prems"(3) Cons at key by (auto simp: is_header_for_def)
      have len: "length ?g < length f"
        using Cons by (simp add: length_dropWhile_le less_Suc_eq_le)
      have "\<forall>l\<in>set ?g. \<not> is_header_for k l"
        using "1.prems"(3) Cons by (auto dest: set_dropWhileD)
      moreover have "k \<in> E - {j}" using jk "1.prems"(2) by simp
      moreover have "\<exists>c'. strip_loop ?g (E - {j}) (insert j A) c' = Inr (child, added, missing)"
        using strip_loop_header[OF at key jin, of g A c] Cons "1.prems"(1) by auto
      ultimately show ?thesis using "1.IH" len by blast
    qed
  qed
qed

lemma strip_loop_append:
  "starts_with CHR ''@'' line \<Longrightarrow>
   strip_loop (pre @ line # f) E A c =
     (case strip_loop pre E A c of Inl e \<Rightarrow> Inl e
      | Inr (c1, A1, E1) \<Rightarrow> strip_loop (line # f) E1 A1 c1)"
proof (induction pre arbitrary: E A c rule: length_induct)
  case (1 pre)
  note at = \<open>starts_with CHR ''@'' line\<close>
  show ?case
  proof (cases pre)
    case Nil
    then show ?thesis by simp
  next
    case (Cons l g)
    have skip: "strip_loop (g @ line # f) E A c =
     (case strip_loop g E A c of Inl e \<Rightarrow> Inl e
      | Inr (c1, A1, E1) \<Rightarrow> strip_loop (line # f) E1 A1 c1)"
    proof -
      have "length g < length pre" using Cons by simp
      with "1.IH" at show ?thesis by blast
    qed
    show ?thesis
    proof (cases "\<exists>j. starts_with CHR ''@'' l \<and> entry_key l = Inr j \<and> j \<in> E")
      case False
      then show ?thesis using Cons skip
        by (cases "entry_key l") (auto split: if_splits)
    next
      case True
      then obtain j where atl: "starts_with CHR ''@'' l" and key: "entry_key l = Inr j"
        and jin: "j \<in> E" by blast
      have ncb: "\<not> continues_block line" using at by (simp add: continues_block_def)
      have d: "dropWhile continues_block (g @ line # f) = dropWhile continues_block g @ line # f"
        using ncb by (induction g) auto
      have tk: "takeWhile continues_block (g @ line # f) = takeWhile continues_block g"
        using ncb by (induction g) auto
      have len: "length (dropWhile continues_block g) < length pre"
        using Cons by (simp add: length_dropWhile_le less_Suc_eq_le)
      show ?thesis
        unfolding Cons append_Cons strip_loop_header[OF atl key jin] d tk
        using "1.IH" len at by blast
    qed
  qed
qed

text \<open>
  C4. When the required set holds \<open>k\<close> and the parent file has lines that begin an entry
  with key \<open>k\<close>, the text returned has exactly one such line, \<open>k\<close> is added and not
  missing, and the block copied is the one of the first such line of the parent file.
\<close>

theorem bib_strip_duplicate_key:
  assumes run: "bib_strip parent_bib R = Inr (child_bib, added, missing)"
    and kin: "k \<in> R"
    and split: "file_lines parent_bib = pre @ line # f"
    and first: "\<forall>l\<in>set pre. \<not> is_header_for k l" "is_header_for k line"
  shows "length (filter (is_header_for k) (file_lines child_bib)) = 1
    \<and> k \<in> added \<and> k \<notin> missing
    \<and> (\<exists>c1 t. child_bib = c1 @ line
          @ concat (filter (\<lambda>l. \<not> starts_with CHR ''#'' l) (takeWhile continues_block f))
          @ [nl] @ t)"
proof -
  have at: "starts_with CHR ''@'' line" and key: "entry_key line = Inr k"
    using first(2) by (auto simp: is_header_for_def)
  have loop: "strip_loop (file_lines parent_bib) R {} [] = Inr (child_bib, added, missing)"
    using run by (simp add: bib_strip_def)
  have "length (filter (is_header_for k) (file_lines child_bib))
     = (if k \<in> R \<and> (\<exists>l\<in>set (file_lines parent_bib). is_header_for k l) then 1 else 0)"
    using strip_loop_count[OF lines_ok_file_lines loop] by simp
  with kin split first(2) have one: "length (filter (is_header_for k) (file_lines child_bib)) = 1"
    by auto
  from loop split strip_loop_append[OF at, of pre f R "{}" "[]"]
  obtain c1 A1 E1 where pre: "strip_loop pre R {} [] = Inr (c1, A1, E1)"
    and rest: "strip_loop (line # f) E1 A1 c1 = Inr (child_bib, added, missing)"
    by (auto split: sum.splits)
  have "k \<in> E1" using strip_loop_keeps[OF pre kin first(1)] .
  from strip_loop_block[OF at key this rest] one show ?thesis by blast
qed

theorem bib_strip_duplicate_key_witness:
  "bib_strip (''@a{k,'' @ [nl] @ '' t=1}'' @ [nl] @ ''@b{k,'' @ [nl] @ '' t=2}'' @ [nl]) {''k''}
     = Inr (''@a{k,'' @ [nl] @ '' t=1}'' @ [nl] @ [nl], {''k''}, {})
   \<and> ''k'' \<in> {''k''}
   \<and> file_lines (''@a{k,'' @ [nl] @ '' t=1}'' @ [nl] @ ''@b{k,'' @ [nl] @ '' t=2}'' @ [nl])
       = [] @ (''@a{k,'' @ [nl]) # ['' t=1}'' @ [nl], ''@b{k,'' @ [nl], '' t=2}'' @ [nl]]
   \<and> is_header_for ''k'' (''@a{k,'' @ [nl]) \<and> is_header_for ''k'' (''@b{k,'' @ [nl])
   \<and> length (filter (is_header_for ''k'')
         (file_lines (''@a{k,'' @ [nl] @ '' t=1}'' @ [nl] @ [nl]))) = 1"
proof -
  have run: "bib_strip (''@a{k,'' @ [nl] @ '' t=1}'' @ [nl] @ ''@b{k,'' @ [nl] @ '' t=2}'' @ [nl])
      {''k''} = Inr (''@a{k,'' @ [nl] @ '' t=1}'' @ [nl] @ [nl], {''k''}, {})"
    by (simp add: bib_strip_def starts_with_def strip_def isspace_def entry_key_def)
  have kin: "''k'' \<in> {''k''}" by simp
  have split: "file_lines (''@a{k,'' @ [nl] @ '' t=1}'' @ [nl] @ ''@b{k,'' @ [nl] @ '' t=2}'' @ [nl])
       = [] @ (''@a{k,'' @ [nl]) # ['' t=1}'' @ [nl], ''@b{k,'' @ [nl], '' t=2}'' @ [nl]]"
    by simp
  have pre: "\<forall>l\<in>set []. \<not> is_header_for ''k'' l" by simp
  have h1: "is_header_for ''k'' (''@a{k,'' @ [nl])"
    by (simp add: is_header_for_def starts_with_def strip_def isspace_def entry_key_def)
  have h2: "is_header_for ''k'' (''@b{k,'' @ [nl])"
    by (simp add: is_header_for_def starts_with_def strip_def isspace_def entry_key_def)
  from bib_strip_duplicate_key[OF run kin split pre h1] run split h1 h2 show ?thesis
    by blast
qed

section \<open>Properties of the lookups\<close>

lemma present_fields_absent: "entry w = None \<Longrightarrow> present_fields entry what r w = r w"
  by (induction what arbitrary: r) (auto split: option.splits)

lemma present_fields_dom: "dom (present_fields entry what r) \<subseteq> dom r \<union> set what"
proof (induction what arbitrary: r)
  case Nil
  then show ?case by simp
next
  case (Cons a what)
  show ?case using Cons[of "case entry a of None \<Rightarrow> r | Some v \<Rightarrow> r(a \<mapsto> sanitize v)"]
    by (auto split: option.splits)
qed

lemma absent_fields_keep: "r w = Some v \<Longrightarrow> absent_fields what r w = Some v"
proof (induction what arbitrary: r)
  case Nil
  then show ?case by simp
next
  case (Cons a what)
  let ?r = "if r a = None then r(a \<mapsto> []) else r"
  have "?r w = Some v" using Cons.prems by auto
  then have "absent_fields what ?r w = Some v" by (rule Cons.IH)
  then show ?case by simp
qed

lemma absent_fields_fill: "r w = None \<Longrightarrow> w \<in> set what \<Longrightarrow> absent_fields what r w = Some []"
proof (induction what arbitrary: r)
  case Nil
  then show ?case by simp
next
  case (Cons a what)
  show ?case
  proof (cases "a = w")
    case True
    with Cons.prems show ?thesis by (simp add: absent_fields_keep)
  next
    case False
    with Cons show ?thesis by auto
  qed
qed

lemma absent_fields_dom: "dom (absent_fields what r) = dom r \<union> set what"
  by (induction what arbitrary: r) auto

text \<open>
  C6. When the entry lacks the requested field, \<open>bib_lookup\<close> returns \<open>None\<close>, while
  \<open>bib_lookup_many\<close> maps that field, when requested, to the empty string; the result of
  \<open>bib_lookup_many\<close> has a value for exactly the requested fields.
\<close>

theorem bib_lookup_absent_field:
  assumes "load bib = Some db" and "entries_dict db bibnick = Some entry" and "entry w = None"
  shows "bib_lookup load bib bibnick w = None
    \<and> (w \<in> set what \<longrightarrow> bib_lookup_many load bib bibnick what w = Some [])
    \<and> dom (bib_lookup_many load bib bibnick what) = set what"
proof -
  let ?r = "present_fields entry what Map.empty"
  have many: "bib_lookup_many load bib bibnick what = absent_fields what ?r"
    using assms by (simp add: bib_lookup_many_def)
  have "?r w = None" using assms(3) by (simp add: present_fields_absent)
  then have "w \<in> set what \<longrightarrow> absent_fields what ?r w = Some []"
    by (simp add: absent_fields_fill)
  moreover have "dom (absent_fields what ?r) = set what"
    using present_fields_dom[of entry what Map.empty] by (auto simp: absent_fields_dom)
  moreover have "bib_lookup load bib bibnick w = None"
    using assms by (simp add: bib_lookup_def)
  ultimately show ?thesis using many by simp
qed

theorem bib_lookup_absent_field_witness:
  "example_load [] = Some \<lparr>entries = [[''ID'' \<mapsto> ''k'', ''title'' \<mapsto> ''T'']],
       entries_dict = [''k'' \<mapsto> [''ID'' \<mapsto> ''k'', ''title'' \<mapsto> ''T'']]\<rparr>
   \<and> [''ID'' \<mapsto> ''k'', ''title'' \<mapsto> ''T''] ''year'' = None
   \<and> bib_lookup example_load [] ''k'' ''year'' = None
   \<and> bib_lookup_many example_load [] ''k'' [''title'', ''year''] ''year'' = Some []
   \<and> bib_lookup_many example_load [] ''k'' [''title'', ''year''] ''title'' = Some ''T''
   \<and> dom (bib_lookup_many example_load [] ''k'' [''title'', ''year''])
       = set [''title'', ''year'']"
proof -
  let ?e = "[''ID'' \<mapsto> ''k'', ''title'' \<mapsto> ''T'']"
  let ?db = "\<lparr>entries = [?e], entries_dict = [''k'' \<mapsto> ?e]\<rparr>"
  have h1: "example_load [] = Some ?db" by (simp add: example_load_def)
  have h2: "entries_dict ?db ''k'' = Some ?e" by simp
  have h3: "?e ''year'' = None" by simp
  have t: "bib_lookup_many example_load [] ''k'' [''title'', ''year''] ''title'' = Some ''T''"
    by (simp add: bib_lookup_many_def example_load_def sanitize_def)
  from bib_lookup_absent_field[where load = example_load and bib = "[]" and db = ?db
      and bibnick = "''k''" and entry = ?e and w = "''year''" and what = "[''title'', ''year'']",
      OF h1 h2 h3] h1 h3 t
  show ?thesis by simp
qed

section \<open>Properties of the report\<close>

lemma printer_items_eq:
  "printer_items i xs out =
     out @ concat (map (\<lambda>j. str_nat (i + j + 1) @ ''. '' @ xs ! j @ [nl]) [0..<length xs])"
proof (induction xs arbitrary: i out)
  case Nil
  then show ?case by simp
next
  case (Cons x xs)
  have "[0..<length (x # xs)] = 0 # map Suc [0..<length xs]"
    by (simp add: upt_conv_Cons map_Suc_upt del: upt_Suc)
  then show ?case
    by (simp add: Cons.IH comp_def)
qed

text \<open>
  C8. For the empty set \<open>printer\<close> returns the empty string. For a non-empty set it returns
  the header, a line feed, as many \<open>=\<close> as the header has characters, a line feed, and
  then one line per item, numbered from 1, the items in ascending order.
\<close>

theorem printer_layout:
  "printer {} msg = []
   \<and> (finite things \<and> things \<noteq> {} \<longrightarrow>
        printer things msg =
          msg @ [nl] @ replicate (length msg) CHR ''='' @ [nl]
          @ concat (map (\<lambda>j. str_nat (j + 1) @ ''. '' @ sorted_list_of_set things ! j @ [nl])
                      [0..<card things])
        \<and> sorted (sorted_list_of_set things) \<and> distinct (sorted_list_of_set things)
        \<and> set (sorted_list_of_set things) = things)"
proof -
  have "printer {} msg = []" by (simp add: printer_def)
  moreover have "printer things msg =
          msg @ [nl] @ replicate (length msg) CHR ''='' @ [nl]
          @ concat (map (\<lambda>j. str_nat (j + 1) @ ''. '' @ sorted_list_of_set things ! j @ [nl])
                      [0..<card things])" if "finite things" "things \<noteq> {}"
  proof -
    from that have "card things > 0" by (simp add: card_gt_0_iff)
    then show ?thesis
      using printer_items_eq[of 0 "sorted_list_of_set things"]
      by (simp add: printer_def)
  qed
  ultimately show ?thesis by simp
qed

theorem printer_layout_witness:
  "finite {''b'', ''a'', ''ab''} \<and> {''b'', ''a'', ''ab''} \<noteq> {}
   \<and> printer {} ''Hi'' = []
   \<and> printer {''b'', ''a'', ''ab''} ''Hi''
       = ''Hi'' @ [nl] @ ''=='' @ [nl] @ ''1. a'' @ [nl] @ ''2. ab'' @ [nl] @ ''3. b'' @ [nl]"
proof -
  have fin: "finite {''b'', ''a'', ''ab''} \<and> {''b'', ''a'', ''ab''} \<noteq> {}" by simp
  have srt: "sorted_list_of_set {''b'', ''a'', ''ab''} = [''a'', ''ab'', ''b'']" by simp
  have crd: "card {''b'', ''a'', ''ab''} = 3" by simp
  have idx: "[0..<3] = [0, 1, 2]" by (simp add: upt_rec)
  from printer_layout[of "''Hi''" "{''b'', ''a'', ''ab''}"] fin
  have "printer {''b'', ''a'', ''ab''} ''Hi''
    = ''Hi'' @ [nl] @ replicate (length ''Hi'') CHR ''='' @ [nl]
      @ concat (map (\<lambda>j. str_nat (j + 1) @ ''. ''
                  @ sorted_list_of_set {''b'', ''a'', ''ab''} ! j @ [nl])
                [0..<card {''b'', ''a'', ''ab''}])"
    and "printer {} ''Hi'' = []"
    by blast+
  then show ?thesis
    unfolding srt crd idx using fin by (simp add: str_nat.simps digit_chr_def)
qed

section \<open>Properties of the file matching\<close>

lemma bracket_group_Some:
  assumes "bracket_group s = Some g"
  shows "\<exists>post. s = g @ '']'' @ post \<and> g \<noteq> [] \<and> nl \<notin> set g"
proof -
  let ?run = "takeWhile (\<lambda>c. c \<noteq> nl) s"
  from assms obtain c t where run: "?run = c # t" and close: "CHR '']'' \<in> set t"
    and g: "g = c # rev (tl (dropWhile (\<lambda>x. x \<noteq> CHR '']'') (rev t)))"
    by (auto simp: bracket_group_def split: list.splits if_splits)
  let ?d = "dropWhile (\<lambda>x. x \<noteq> CHR '']'') (rev t)"
  let ?k = "takeWhile (\<lambda>x. x \<noteq> CHR '']'') (rev t)"
  from close have "?d \<noteq> []" by (simp add: dropWhile_eq_Nil_conv)
  then have "hd ?d = CHR '']''" using hd_dropWhile[of "\<lambda>x. x \<noteq> CHR '']''" "rev t"] by simp
  with \<open>?d \<noteq> []\<close> have d: "?d = CHR '']'' # tl ?d" by (metis list.collapse)
  have "rev t = ?k @ ?d" by simp
  then have "t = rev ?d @ rev ?k" by (metis rev_append rev_rev_ident)
  with d have t: "t = rev (tl ?d) @ '']'' @ rev ?k" by (metis rev.simps(2) append_assoc append_Cons append_Nil)
  have "s = ?run @ dropWhile (\<lambda>c. c \<noteq> nl) s" by simp
  with run t g have s: "s = g @ '']'' @ rev ?k @ dropWhile (\<lambda>c. c \<noteq> nl) s"
    by (metis append_Cons append_assoc)
  have "?run = g @ '']'' @ rev ?k" using run g t by (metis append_Cons)
  then have "set g \<subseteq> set ?run" by (metis set_append Un_upper1)
  moreover have "nl \<notin> set ?run" by (auto dest: set_takeWhileD)
  ultimately have "nl \<notin> set g" by blast
  with s g show ?thesis by blast
qed

lemma bracket_group_complete:
  assumes "s = c @ '']'' @ post" and "c \<noteq> []" and "nl \<notin> set c"
  shows "bracket_group s \<noteq> None"
proof -
  from assms(2) obtain x xs where c: "c = x # xs" by (cases c) auto
  have "takeWhile (\<lambda>c. c \<noteq> nl) s = c @ takeWhile (\<lambda>c. c \<noteq> nl) ('']'' @ post)"
    unfolding assms(1) using assms(3) by (intro takeWhile_append2) auto
  then have "takeWhile (\<lambda>c. c \<noteq> nl) s = x # (xs @ CHR '']'' # takeWhile (\<lambda>c. c \<noteq> nl) post)"
    using c by simp
  then show ?thesis by (simp add: bracket_group_def)
qed

lemma re_search_bracket_Some:
  "re_search_bracket s = Some g \<Longrightarrow>
   \<exists>pre post. s = pre @ ''['' @ g @ '']'' @ post \<and> g \<noteq> [] \<and> nl \<notin> set g"
proof (induction s)
  case Nil
  then show ?case by simp
next
  case (Cons c cs)
  show ?case
  proof (cases "c = CHR ''['' \<and> bracket_group cs \<noteq> None")
    case True
    with Cons.prems have "bracket_group cs = Some g" by auto
    from bracket_group_Some[OF this] obtain post where
      "cs = g @ '']'' @ post" "g \<noteq> []" "nl \<notin> set g" by blast
    with True have "c # cs = [] @ ''['' @ g @ '']'' @ post \<and> g \<noteq> [] \<and> nl \<notin> set g" by simp
    then show ?thesis by blast
  next
    case False
    with Cons.prems have "re_search_bracket cs = Some g" by (auto split: if_splits)
    from Cons.IH[OF this] obtain pre post where
      "cs = pre @ ''['' @ g @ '']'' @ post" "g \<noteq> []" "nl \<notin> set g" by blast
    then have "c # cs = (c # pre) @ ''['' @ g @ '']'' @ post \<and> g \<noteq> [] \<and> nl \<notin> set g" by simp
    then show ?thesis by blast
  qed
qed

lemma re_search_bracket_None:
  "re_search_bracket s = None \<Longrightarrow> s = pre @ ''['' @ c @ '']'' @ post \<Longrightarrow> c \<noteq> []
   \<Longrightarrow> nl \<in> set c"
proof (induction s arbitrary: pre)
  case Nil
  then show ?case by simp
next
  case (Cons x xs)
  from Cons.prems(1) have rest: "re_search_bracket xs = None"
    by (auto split: if_splits option.splits)
  show ?case
  proof (cases pre)
    case Nil
    with Cons.prems(2) have x: "x = CHR ''[''" and xs: "xs = c @ '']'' @ post" by auto
    from Cons.prems(1) x have "bracket_group xs = None" by (auto split: option.splits)
    with bracket_group_complete[OF xs Cons.prems(3)] show ?thesis by blast
  next
    case (Cons p pre')
    with Cons.prems(2) have "xs = pre' @ ''['' @ c @ '']'' @ post" by simp
    from Cons.IH[OF rest this Cons.prems(3)] show ?thesis .
  qed
qed

text \<open>
  C7 (as amended). When the name has a bracketed substring whose content is not empty and
  has no line feed, \<open>filename_to_bibnick\<close> returns the content of such a substring;
  otherwise it returns the whole name.
\<close>

theorem filename_to_bibnick_bracket:
  "(if \<exists>pre c post. filename = pre @ ''['' @ c @ '']'' @ post \<and> c \<noteq> [] \<and> nl \<notin> set c
    then \<exists>pre c post. filename = pre @ ''['' @ c @ '']'' @ post \<and> c \<noteq> [] \<and> nl \<notin> set c
           \<and> filename_to_bibnick filename = c
    else filename_to_bibnick filename = filename)"
proof (cases "re_search_bracket filename")
  case None
  then have "\<not> (\<exists>pre c post. filename = pre @ ''['' @ c @ '']'' @ post \<and> c \<noteq> [] \<and> nl \<notin> set c)"
    using re_search_bracket_None by blast
  with None show ?thesis by (simp add: filename_to_bibnick_def)
next
  case (Some g)
  from re_search_bracket_Some[OF Some] obtain pre post where
    h: "filename = pre @ ''['' @ g @ '']'' @ post" "g \<noteq> []" "nl \<notin> set g" by blast
  moreover have "filename_to_bibnick filename = g" using Some by (simp add: filename_to_bibnick_def)
  ultimately show ?thesis by (auto simp del: append_assoc)
qed

theorem filename_to_bibnick_bracket_witness:
  "(\<exists>pre c post. ''[Smith2020]notes.pdf'' = pre @ ''['' @ c @ '']'' @ post \<and> c \<noteq> []
      \<and> nl \<notin> set c \<and> filename_to_bibnick ''[Smith2020]notes.pdf'' = c)
   \<and> filename_to_bibnick ''[Smith2020]notes.pdf'' = ''Smith2020''
   \<and> filename_to_bibnick ''article.pdf'' = ''article.pdf''"
proof -
  have ex: "\<exists>pre c post. ''[Smith2020]notes.pdf'' = pre @ ''['' @ c @ '']'' @ post \<and> c \<noteq> []
      \<and> nl \<notin> set c"
  proof -
    have "''[Smith2020]notes.pdf'' = [] @ ''['' @ ''Smith2020'' @ '']'' @ ''notes.pdf''
      \<and> ''Smith2020'' \<noteq> [] \<and> nl \<notin> set ''Smith2020''" by simp
    then show ?thesis by blast
  qed
  have v: "filename_to_bibnick ''[Smith2020]notes.pdf'' = ''Smith2020''"
    "filename_to_bibnick ''article.pdf'' = ''article.pdf''"
    by (simp_all add: filename_to_bibnick_def bracket_group_def)
  from filename_to_bibnick_bracket[of "''[Smith2020]notes.pdf''"] ex
  have "\<exists>pre c post. ''[Smith2020]notes.pdf'' = pre @ ''['' @ c @ '']'' @ post \<and> c \<noteq> []
      \<and> nl \<notin> set c \<and> filename_to_bibnick ''[Smith2020]notes.pdf'' = c"
    by (simp only: if_True)
  with v show ?thesis by blast
qed

text \<open>
  C7 as stated fails on a name with empty brackets and on a name whose brackets enclose a
  line feed: each has a bracketed substring, and the whole name is returned.
\<close>

theorem filename_to_bibnick_counterexample:
  "bracketed_contents ''[].pdf'' = [[]]
   \<and> filename_to_bibnick ''[].pdf'' = ''[].pdf''
   \<and> \<not> spec_filename_to_bibnick ''[].pdf'' (filename_to_bibnick ''[].pdf'')
   \<and> bracketed_contents (''[a'' @ [nl] @ ''b].pdf'') = [''a'' @ [nl] @ ''b'']
   \<and> filename_to_bibnick (''[a'' @ [nl] @ ''b].pdf'') = ''[a'' @ [nl] @ ''b].pdf''
   \<and> \<not> spec_filename_to_bibnick (''[a'' @ [nl] @ ''b].pdf'')
         (filename_to_bibnick (''[a'' @ [nl] @ ''b].pdf''))"
  by (simp add: spec_filename_to_bibnick_def bracketed_contents_def filename_to_bibnick_def
      bracket_group_def upt_rec)

lemma startswith_iff: "startswith s p \<longleftrightarrow> (\<exists>post. s = p @ post)"
  by (induction s p rule: startswith.induct) auto

lemma endswith_iff: "endswith s suf \<longleftrightarrow> (\<exists>pre. s = pre @ suf)"
proof -
  have "endswith s suf \<longleftrightarrow> (\<exists>post. rev s = rev suf @ post)"
    by (simp add: endswith_def startswith_iff)
  also have "\<dots> \<longleftrightarrow> (\<exists>pre. s = pre @ suf)"
  proof
    assume "\<exists>post. rev s = rev suf @ post"
    then obtain post where "rev s = rev suf @ post" by blast
    then have "s = rev post @ suf" by (metis rev_append rev_rev_ident)
    then show "\<exists>pre. s = pre @ suf" by blast
  next
    assume "\<exists>pre. s = pre @ suf"
    then show "\<exists>post. rev s = rev suf @ post" by auto
  qed
  finally show ?thesis .
qed

lemma contains_iff: "contains s sub \<longleftrightarrow> (\<exists>pre post. s = pre @ sub @ post)"
proof (induction s)
  case Nil
  then show ?case by auto
next
  case (Cons c cs)
  show ?case
  proof
    assume "contains (c # cs) sub"
    then consider "startswith (c # cs) sub" | "contains cs sub" by auto
    then show "\<exists>pre post. c # cs = pre @ sub @ post"
    proof cases
      case 1
      then obtain post where "c # cs = [] @ sub @ post" by (auto simp: startswith_iff)
      then show ?thesis by blast
    next
      case 2
      with Cons obtain pre post where "cs = pre @ sub @ post" by blast
      then have "c # cs = (c # pre) @ sub @ post" by simp
      then show ?thesis by blast
    qed
  next
    assume "\<exists>pre post. c # cs = pre @ sub @ post"
    then obtain pre post where eq: "c # cs = pre @ sub @ post" by blast
    show "contains (c # cs) sub"
    proof (cases pre)
      case Nil
      with eq have "startswith (c # cs) sub" by (auto simp: startswith_iff)
      then show ?thesis by simp
    next
      case (Cons p pre')
      with eq have "cs = pre' @ sub @ post" by simp
      with Cons.IH have "contains cs sub" by blast
      then show ?thesis by simp
    qed
  qed
qed

lemma find_in_filenames_eq:
  "find_in_filenames abspath bibnick root filenames =
     map_option (\<lambda>filename. abspath (path_join root filename))
       (find (\<lambda>filename. contains filename bibnick \<and> endswith filename ''.pdf'') filenames)"
  by (induction filenames) auto

lemma find_pdf_from_bibnick_eq:
  "find_pdf_from_bibnick abspath bibnick w =
     map_option (\<lambda>(root, filename). abspath (path_join root filename))
       (find (\<lambda>(root, filename). contains filename bibnick \<and> endswith filename ''.pdf'')
          (walk_files w))"
proof (induction w)
  case Nil
  then show ?case by (simp add: walk_files_def)
next
  case (Cons a w)
  obtain root dirnames filenames where a: "a = (root, dirnames, filenames)"
    by (cases a) auto
  have inner: "find (\<lambda>(root, filename). contains filename bibnick \<and> endswith filename ''.pdf'')
      (map (Pair root) filenames @ rest)
    = (case find (\<lambda>filename. contains filename bibnick \<and> endswith filename ''.pdf'') filenames of
         Some filename \<Rightarrow> Some (root, filename)
       | None \<Rightarrow> find (\<lambda>(root, filename). contains filename bibnick \<and> endswith filename ''.pdf'')
           rest)" for rest
    by (induction filenames) auto
  show ?case
    using Cons
    by (simp add: a walk_files_def inner find_in_filenames_eq split: option.splits)
qed

text \<open>
  C10. \<open>find_pdf_from_bibnick\<close> returns the first file of the walk whose name contains the
  key as a substring and ends with \<open>.pdf\<close>, and nothing when there is none; so the key
  \<open>Smith\<close> finds \<open>[Smith2020]paper.pdf\<close>, whose bracket-derived key is \<open>Smith2020\<close>.
\<close>

theorem find_pdf_from_bibnick_substring:
  "find_pdf_from_bibnick abspath bibnick w =
     (case find (\<lambda>(root, filename).
               (\<exists>pre post. filename = pre @ bibnick @ post) \<and> (\<exists>pre. filename = pre @ ''.pdf''))
             (walk_files w) of
        None \<Rightarrow> None
      | Some (root, filename) \<Rightarrow> Some (abspath (path_join root filename)))
   \<and> (\<not> (\<exists>root filename. (root, filename) \<in> set (walk_files w)
            \<and> (\<exists>pre post. filename = pre @ bibnick @ post)
            \<and> (\<exists>pre. filename = pre @ ''.pdf''))
        \<longrightarrow> find_pdf_from_bibnick abspath bibnick w = None)
   \<and> find_pdf_from_bibnick abspath ''Smith'' [(''/refs'', [], [''[Smith2020]paper.pdf''])]
       = Some (abspath ''/refs/[Smith2020]paper.pdf'')
   \<and> filename_to_bibnick ''[Smith2020]paper.pdf'' = ''Smith2020''
   \<and> ''Smith2020'' \<noteq> ''Smith''"
proof -
  have "find_pdf_from_bibnick abspath ''Smith'' [(''/refs'', [], [''[Smith2020]paper.pdf''])]
       = Some (abspath ''/refs/[Smith2020]paper.pdf'')"
    by (simp add: endswith_def path_join_def)
  moreover have "filename_to_bibnick ''[Smith2020]paper.pdf'' = ''Smith2020''"
    by (simp add: filename_to_bibnick_def bracket_group_def)
  moreover have "find_pdf_from_bibnick abspath bibnick w = None"
    if "\<not> (\<exists>root filename. (root, filename) \<in> set (walk_files w)
            \<and> (\<exists>pre post. filename = pre @ bibnick @ post)
            \<and> (\<exists>pre. filename = pre @ ''.pdf''))"
  proof -
    from that have "find (\<lambda>(root, filename). contains filename bibnick \<and> endswith filename ''.pdf'')
        (walk_files w) = None"
      by (auto simp: find_None_iff contains_iff endswith_iff)
    then show ?thesis by (simp add: find_pdf_from_bibnick_eq)
  qed
  ultimately show ?thesis
    by (simp add: find_pdf_from_bibnick_eq contains_iff endswith_iff split: option.splits)
qed

theorem find_pdf_from_bibnick_substring_witness:
  "find_pdf_from_bibnick (\<lambda>p. p) ''Smith''
       [(''/refs'', [''sub''], [''notes.txt'', ''[Smith2020]paper.pdf'']),
        (''/refs/sub'', [], [''Smith.pdf''])]
     = Some ''/refs/[Smith2020]paper.pdf''
   \<and> \<not> (\<exists>root filename. (root, filename) \<in> set (walk_files [(''/refs'', [], [''a.pdf'', ''Smith.txt''])])
            \<and> (\<exists>pre post. filename = pre @ ''Smith'' @ post)
            \<and> (\<exists>pre. filename = pre @ ''.pdf''))
   \<and> find_pdf_from_bibnick (\<lambda>p. p) ''Smith'' [(''/refs'', [], [''a.pdf'', ''Smith.txt''])] = None"
proof -
  have none: "\<not> (\<exists>root filename.
      (root, filename) \<in> set (walk_files [(''/refs'', [], [''a.pdf'', ''Smith.txt''])])
            \<and> (\<exists>pre post. filename = pre @ ''Smith'' @ post)
            \<and> (\<exists>pre. filename = pre @ ''.pdf''))"
  proof -
    have "\<not> (\<exists>root filename.
        (root, filename) \<in> set (walk_files [(''/refs'', [], [''a.pdf'', ''Smith.txt''])])
        \<and> contains filename ''Smith'' \<and> endswith filename ''.pdf'')"
      by (auto simp: walk_files_def endswith_def)
    then show ?thesis unfolding contains_iff endswith_iff .
  qed
  have run: "find_pdf_from_bibnick (\<lambda>p. p) ''Smith''
       [(''/refs'', [''sub''], [''notes.txt'', ''[Smith2020]paper.pdf'']),
        (''/refs/sub'', [], [''Smith.pdf''])]
     = Some ''/refs/[Smith2020]paper.pdf''"
    by (simp add: endswith_def path_join_def)
  from find_pdf_from_bibnick_substring[of "\<lambda>p. p" "''Smith''"
      "[(''/refs'', [], [''a.pdf'', ''Smith.txt''])]"] none
  have "find_pdf_from_bibnick (\<lambda>p. p) ''Smith'' [(''/refs'', [], [''a.pdf'', ''Smith.txt''])] = None"
    by blast
  with none run show ?thesis by blast
qed

section \<open>Properties of the citation scanner\<close>

lemma add_cites_append:
  "add_cites (xs @ ys) cites n = (case add_cites xs cites n of (c, m) \<Rightarrow> add_cites ys c m)"
  by (induction xs arbitrary: cites n) auto

lemma add_cites_fst:
  "fst (add_cites ms cites n) = cites \<union> \<Union> (keys_of ` {x \<in> set ms. snd x \<noteq> []})"
  by (induction ms arbitrary: cites n) (auto simp: keys_of_def)

lemma add_cites_snd:
  "snd (add_cites ms cites n) = n + length (filter (\<lambda>x. snd x = []) ms)"
  by (induction ms arbitrary: cites n) auto

lemma scan_files_eq:
  "scan_files read fs cites n =
     add_cites (concat (map (\<lambda>tex_file. findall_citere (joined_lines (read tex_file))) fs)) cites n"
proof (induction fs arbitrary: cites n)
  case Nil
  then show ?case by simp
next
  case (Cons f fs)
  then show ?case by (simp add: add_cites_append split: prod.splits)
qed

lemma latex_cites_eq: "latex_cites read project = add_cites (all_matches read project) {} 0"
  by (simp add: latex_cites_def all_matches_def scan_files_eq)

lemma findall_cite_empty:
  "findall_citere (bsl # ''cite{}'' @ rest) = (bsl # ''cite'', []) # findall_citere rest"
  by (simp add: citere_match_def cite_arg_def)

lemma findall_fullcite_empty:
  "findall_citere (bsl # ''fullcite{}'' @ rest) = (bsl # ''fullcite'', []) # findall_citere rest"
  by (simp add: citere_match_def cite_arg_def)

text \<open>
  C5. A citation command with empty braces is a match whose argument is empty. Each such
  match adds one warning and no key, and the other matches are processed as if it were not
  there: the warnings count the matches with an empty argument, and the keys come from the
  matches with a non-empty argument only.
\<close>

theorem latex_cites_empty_citation:
  "snd (latex_cites read project)
     = length (filter (\<lambda>x. snd x = []) (all_matches read project))
   \<and> fst (latex_cites read project)
     = \<Union> (keys_of ` {x \<in> set (all_matches read project). snd x \<noteq> []})
   \<and> fst (add_cites (xs @ (g, []) # ys) cites n) = fst (add_cites (xs @ ys) cites n)
   \<and> snd (add_cites (xs @ (g, []) # ys) cites n) = Suc (snd (add_cites (xs @ ys) cites n))
   \<and> findall_citere (bsl # ''cite{}'' @ rest) = (bsl # ''cite'', []) # findall_citere rest
   \<and> findall_citere (bsl # ''fullcite{}'' @ rest)
       = (bsl # ''fullcite'', []) # findall_citere rest"
proof -
  have "{x \<in> set (xs @ (g, []) # ys). snd x \<noteq> []} = {x \<in> set (xs @ ys). snd x \<noteq> []}"
    by auto
  then have "fst (add_cites (xs @ (g, []) # ys) cites n) = fst (add_cites (xs @ ys) cites n)"
    by (simp only: add_cites_fst)
  moreover have "snd (add_cites (xs @ (g, []) # ys) cites n)
      = Suc (snd (add_cites (xs @ ys) cites n))"
    by (simp add: add_cites_snd)
  moreover have "snd (latex_cites read project)
      = length (filter (\<lambda>x. snd x = []) (all_matches read project))"
    by (simp add: latex_cites_eq add_cites_snd)
  moreover have "fst (latex_cites read project)
      = \<Union> (keys_of ` {x \<in> set (all_matches read project). snd x \<noteq> []})"
    by (simp add: latex_cites_eq add_cites_fst)
  moreover note findall_cite_empty[of rest] findall_fullcite_empty[of rest]
  ultimately show ?thesis by blast
qed

theorem latex_cites_empty_citation_witness:
  "all_matches (\<lambda>_. bsl # ''cite{}'' @ '' and '' @ bsl # ''cite{a}'' @ [nl])
       [(''.'', [], [''main.tex''])]
     = [(bsl # ''cite'', []), (bsl # ''cite'', ''a'')]
   \<and> latex_cites (\<lambda>_. bsl # ''cite{}'' @ '' and '' @ bsl # ''cite{a}'' @ [nl])
       [(''.'', [], [''main.tex''])] = ({''a''}, 1)
   \<and> [] \<notin> fst (latex_cites (\<lambda>_. bsl # ''cite{}'' @ '' and '' @ bsl # ''cite{a}'' @ [nl])
       [(''.'', [], [''main.tex''])])"
proof -
  let ?read = "\<lambda>_ :: string. bsl # ''cite{}'' @ '' and '' @ bsl # ''cite{a}'' @ [nl]"
  let ?p = "[(''.'', [], [''main.tex''])] :: walk"
  let ?c = "bsl # ''cite''"
  have m: "all_matches ?read ?p = [(?c, []), (?c, ''a'')]"
    by (simp add: all_matches_def tex_files_def endswith_def path_join_def joined_lines_def
        strip_def isspace_def citere_match_def cite_arg_def)
  have k: "keys_of (?c, ''a'') = {''a''}"
    by (simp add: keys_of_def strip_def isspace_def)
  have sel: "{x \<in> set [(?c, []), (?c, ''a'')]. snd x \<noteq> []} = {(?c, ''a'')}"
    by auto
  have emp: "filter (\<lambda>x. snd x = []) [(?c, []), (?c, ''a'')] = [(?c, [])]"
    by simp
  note t = latex_cites_empty_citation[where read = ?read and project = ?p and xs = "[]"
      and g = "[]" and ys = "[]" and cites = "{}" and n = 0 and rest = "[]"]
  have "snd (latex_cites ?read ?p) = length (filter (\<lambda>x. snd x = []) (all_matches ?read ?p))"
    and "fst (latex_cites ?read ?p)
      = \<Union> (keys_of ` {x \<in> set (all_matches ?read ?p). snd x \<noteq> []})"
    using t[THEN conjunct1] t[THEN conjunct2, THEN conjunct1] by this+
  then have s: "snd (latex_cites ?read ?p) = 1" and f: "fst (latex_cites ?read ?p) = {''a''}"
    unfolding m sel emp by (simp_all add: k)
  have v: "latex_cites ?read ?p = ({''a''}, 1)"
    using s f by (simp add: prod_eq_iff)
  have ne: "[] \<notin> fst (latex_cites ?read ?p)"
    unfolding f by simp
  from m v ne show ?thesis by (intro conjI)
qed

lemma split_chr_append:
  "split_chr sep (p @ sep # q) = split_chr sep p @ split_chr sep q"
proof (induction p)
  case Nil
  then show ?case by simp
next
  case (Cons c p)
  obtain x xs where "split_chr sep p = x # xs"
    by (cases "split_chr sep p") (auto split: if_splits list.splits)
  with Cons show ?case by simp
qed

lemma split_chr_stray_comma:
  assumes "a = p @ sep # q" and "p = [] \<or> q = [] \<or> (\<exists>r. q = sep # r)"
  shows "[] \<in> set (split_chr sep a)"
proof -
  have a: "split_chr sep a = split_chr sep p @ split_chr sep q"
    using assms(1) by (simp add: split_chr_append)
  from assms(2) consider "p = []" | "q = []" | r where "q = sep # r" by blast
  then show ?thesis
    by cases (auto simp: a)
qed

text \<open>
  C9. When a match has an argument with a leading, a trailing or a doubled comma, the empty
  string is among the keys \<open>latex_cites\<close> returns.
\<close>

theorem latex_cites_stray_comma:
  assumes "(g, a) \<in> set (all_matches read project)"
    and "a = p @ '','' @ q"
    and "p = [] \<or> q = [] \<or> (\<exists>r. q = '','' @ r)"
  shows "[] \<in> fst (latex_cites read project)"
proof -
  have "[] \<in> set (split_chr CHR '','' a)"
    using split_chr_stray_comma[of a p "CHR '',''" q] assms(2,3) by simp
  then have "strip [] \<in> keys_of (g, a)"
    unfolding keys_of_def by (metis imageI set_map snd_conv)
  then have "[] \<in> keys_of (g, a)" by (simp add: strip_def)
  moreover have "a \<noteq> []" using assms(2) by simp
  ultimately show ?thesis
    using assms(1) by (auto simp: latex_cites_eq add_cites_fst)
qed

theorem latex_cites_stray_comma_witness:
  "(bsl # ''cite'', ''a,'') \<in> set (all_matches (\<lambda>_. ''see '' @ bsl # ''cite{a,}'' @ [nl])
       [(''.'', [], [''main.tex''])])
   \<and> ''a,'' = ''a'' @ '','' @ []
   \<and> latex_cites (\<lambda>_. ''see '' @ bsl # ''cite{a,}'' @ [nl]) [(''.'', [], [''main.tex''])]
       = ({''a'', []}, 0)
   \<and> [] \<in> fst (latex_cites (\<lambda>_. ''see '' @ bsl # ''cite{a,}'' @ [nl])
       [(''.'', [], [''main.tex''])])"
proof -
  let ?read = "\<lambda>_ :: string. ''see '' @ bsl # ''cite{a,}'' @ [nl]"
  let ?p = "[(''.'', [], [''main.tex''])] :: walk"
  have m: "(bsl # ''cite'', ''a,'') \<in> set (all_matches ?read ?p)"
    by (simp add: all_matches_def tex_files_def endswith_def path_join_def joined_lines_def
        strip_def isspace_def citere_match_def cite_arg_def)
  have a: "''a,'' = ''a'' @ '','' @ []" by simp
  have c: "''a'' = [] \<or> ([] :: string) = [] \<or> (\<exists>r. [] = '','' @ r)" by simp
  have v: "latex_cites ?read ?p = ({''a'', []}, 0)"
    by (simp add: latex_cites_def tex_files_def endswith_def path_join_def joined_lines_def
        strip_def isspace_def citere_match_def cite_arg_def insert_commute)
  from latex_cites_stray_comma[OF m a c] m v show ?thesis by simp
qed

section \<open>Properties of make\<close>

















end
